theory Spec2Isabelle
  imports Main "HOL-Library.Multiset"
begin

section \<open>Windowed chunk store: the data model\<close>

text \<open>
  The notebook \<^verbatim>\<open>context_enrichment_window_around_chunk.ipynb\<close> splits a text into
  overlapping chunks, stores them in a vector store and widens a retrieved chunk with
  its neighbours. A Python string is a sequence of code points; the functions below never
  look at a single character, so a text is a list over any character type \<open>'c\<close>.

  A \<^verbatim>\<open>Document\<close> has a \<^verbatim>\<open>page_content\<close> and a \<^verbatim>\<open>metadata\<close> dictionary. The
  dictionary keeps its insertion order, so it is an association list from keys to
  Python values; the splitter stores an integer and a string there.
\<close>

datatype 'c pyval = PInt int | PStr "'c list"

record 'c Document =
  page_content :: "'c list"
  metadata :: "(string \<times> 'c pyval) list"

text \<open>\<^verbatim>\<open>d.get(key)\<close>: the value stored under the key, or \<open>None\<close>.\<close>

definition dict_get :: "(string \<times> 'c pyval) list \<Rightarrow> string \<Rightarrow> 'c pyval option" where
  "dict_get d key = map_of d key"

datatype error = IndexError | TypeError

subsection \<open>Python slicing\<close>

text \<open>
  \<^verbatim>\<open>xs[lo:hi]\<close> for integers \<open>lo\<close> and \<open>hi\<close>: a negative bound counts from the end,
  every bound is clamped to \<open>0 .. len(xs)\<close>, and the slice is empty when the bounds cross.
\<close>

definition py_bound :: "int \<Rightarrow> nat \<Rightarrow> nat" where
  "py_bound i n = (if i < 0 then nat (max 0 (i + int n)) else min (nat i) n)"

definition py_slice :: "'a list \<Rightarrow> int \<Rightarrow> int \<Rightarrow> 'a list" where
  "py_slice xs lo hi =
     (let l = py_bound lo (length xs); h = py_bound hi (length xs)
      in take (h - l) (drop l xs))"

section \<open>The chunk splitter\<close>

text \<open>
  \<^verbatim>\<open>
  def split_text_to_chunks_with_indices(text, chunk_size, chunk_overlap):
      chunks = []
      start = 0
      while start < len(text):
          end = start + chunk_size
          chunk = text[start:end]
          chunks.append(Document(page_content=chunk,
                                 metadata={"index": len(chunks), "text": text}))
          start += chunk_size - chunk_overlap
      return chunks
  \<close>
  The \<^verbatim>\<open>while\<close> loop need not end, so it is a partial function into \<open>option\<close>:
  \<open>None\<close> is the loop that never returns. The loop state is \<open>start\<close> and \<open>chunks\<close>.
\<close>

partial_function (option) split_loop ::
  "'c list \<Rightarrow> int \<Rightarrow> int \<Rightarrow> int \<Rightarrow> 'c Document list \<Rightarrow> 'c Document list option"
where
  [code]: "split_loop text chunk_size chunk_overlap start chunks =
     (if start < int (length text) then
        (let end = start + chunk_size;
             chunk = py_slice text start end
         in split_loop text chunk_size chunk_overlap (start + (chunk_size - chunk_overlap))
              (chunks @ [\<lparr>page_content = chunk,
                          metadata = [(''index'', PInt (int (length chunks))),
                                      (''text'', PStr text)]\<rparr>]))
      else Some chunks)"

definition split_text_to_chunks_with_indices ::
  "'c list \<Rightarrow> int \<Rightarrow> int \<Rightarrow> 'c Document list option"
where
  "split_text_to_chunks_with_indices text chunk_size chunk_overlap =
     split_loop text chunk_size chunk_overlap 0 []"

section \<open>Indexed lookup\<close>

text \<open>
  The vector store is an outside library. The lookup only asks it for all its documents,
  \<^verbatim>\<open>vectorstore.similarity_search("", k=vectorstore.index.ntotal)\<close>, and scans
  the answer; a store is therefore modelled by that answer: the stored documents, in
  whatever order the store ranks them.
  \<^verbatim>\<open>
  def get_chunk_by_index(vectorstore, target_index):
      all_docs = vectorstore.similarity_search("", k=vectorstore.index.ntotal)
      for doc in all_docs:
          if doc.metadata.get('index') == target_index:
              return doc
      return None
  \<close>
\<close>

type_synonym 'c VectorStore = "'c Document list"

definition get_chunk_by_index :: "'c VectorStore \<Rightarrow> int \<Rightarrow> 'c Document option" where
  "get_chunk_by_index vectorstore target_index =
     find (\<lambda>doc. dict_get (metadata doc) ''index'' = Some (PInt target_index)) vectorstore"

section \<open>The context window expander\<close>

text \<open>
  \<^verbatim>\<open>
  def retrieve_with_context_overlap(vectorstore, retriever, query, num_neighbors=1,
                                    chunk_size=200, chunk_overlap=20):
      relevant_chunks = retriever.get_relevant_documents(query)
      result_sequences = []
      for chunk in relevant_chunks:
          current_index = chunk.metadata.get('index')
          if current_index is None:
              continue
          start_index = max(0, current_index - num_neighbors)
          end_index = current_index + num_neighbors + 1
          neighbor_chunks = []
          for i in range(start_index, end_index):
              neighbor_chunk = get_chunk_by_index(vectorstore, i)
              if neighbor_chunk:
                  neighbor_chunks.append(neighbor_chunk)
          neighbor_chunks.sort(key=lambda x: x.metadata.get('index', 0))
          concatenated_text = neighbor_chunks[0].page_content
          for i in range(1, len(neighbor_chunks)):
              current_chunk = neighbor_chunks[i].page_content
              overlap_start = max(0, len(concatenated_text) - chunk_overlap)
              concatenated_text = concatenated_text[:overlap_start] + current_chunk
          result_sequences.append(concatenated_text)
      return result_sequences
  \<close>
  The retriever is an outside library as well: its answer \<open>relevant_chunks\<close> is an
  argument of the model.
\<close>

text \<open>The inner gathering loop over \<^verbatim>\<open>range(start_index, end_index)\<close>.\<close>

definition gather_neighbors :: "'c VectorStore \<Rightarrow> int \<Rightarrow> int \<Rightarrow> 'c Document list" where
  "gather_neighbors vectorstore start_index end_index =
     List.map_filter (get_chunk_by_index vectorstore) [start_index..end_index - 1]"

text \<open>
  \<^verbatim>\<open>neighbor_chunks.sort(key=lambda x: x.metadata.get('index', 0))\<close>: a stable sort
  on the keys. Python compares integer keys as integers; a list holding a key that is
  not an integer is reported as \<open>TypeError\<close>, which is what Python raises when it
  compares a string with an integer. No such key reaches the sort: every gathered chunk
  compared equal to an integer in \<open>get_chunk_by_index\<close>.
\<close>

definition sort_key_of :: "'c Document \<Rightarrow> 'c pyval" where
  "sort_key_of x = (case dict_get (metadata x) ''index'' of None \<Rightarrow> PInt 0 | Some v \<Rightarrow> v)"

fun int_of_pyval :: "'c pyval \<Rightarrow> int" where
  "int_of_pyval (PInt i) = i"
| "int_of_pyval (PStr s) = 0"

fun is_PInt :: "'c pyval \<Rightarrow> bool" where
  "is_PInt (PInt i) = True"
| "is_PInt (PStr s) = False"

definition sort_by_index :: "'c Document list \<Rightarrow> error + 'c Document list" where
  "sort_by_index neighbor_chunks =
     (if list_all (\<lambda>x. is_PInt (sort_key_of x)) neighbor_chunks
      then Inr (sort_key (\<lambda>x. int_of_pyval (sort_key_of x)) neighbor_chunks)
      else Inl TypeError)"

text \<open>One round of the concatenation loop, and the loop over the chunks after the first.\<close>

definition append_with_overlap :: "int \<Rightarrow> 'c list \<Rightarrow> 'c Document \<Rightarrow> 'c list" where
  "append_with_overlap chunk_overlap concatenated_text neighbor =
     (let current_chunk = page_content neighbor;
          overlap_start = max 0 (int (length concatenated_text) - chunk_overlap)
      in py_slice concatenated_text 0 overlap_start @ current_chunk)"

definition concatenate_chunks :: "int \<Rightarrow> 'c Document list \<Rightarrow> error + 'c list" where
  "concatenate_chunks chunk_overlap neighbor_chunks =
     (case neighbor_chunks of
        [] \<Rightarrow> Inl IndexError
      | first # others \<Rightarrow>
          Inr (foldl (append_with_overlap chunk_overlap) (page_content first) others))"

fun retrieve_loop ::
  "'c VectorStore \<Rightarrow> int \<Rightarrow> int \<Rightarrow> 'c Document list \<Rightarrow> 'c list list \<Rightarrow> error + 'c list list"
where
  "retrieve_loop vectorstore num_neighbors chunk_overlap [] result_sequences =
     Inr result_sequences"
| "retrieve_loop vectorstore num_neighbors chunk_overlap (chunk # rest) result_sequences =
     (case dict_get (metadata chunk) ''index'' of
        None \<Rightarrow> retrieve_loop vectorstore num_neighbors chunk_overlap rest result_sequences
      | Some (PStr s) \<Rightarrow> Inl TypeError
      | Some (PInt current_index) \<Rightarrow>
          (let start_index = max 0 (current_index - num_neighbors);
               end_index = current_index + num_neighbors + 1;
               neighbor_chunks = gather_neighbors vectorstore start_index end_index
           in case sort_by_index neighbor_chunks of
                Inl e \<Rightarrow> Inl e
              | Inr sorted_chunks \<Rightarrow>
                  (case concatenate_chunks chunk_overlap sorted_chunks of
                     Inl e \<Rightarrow> Inl e
                   | Inr concatenated_text \<Rightarrow>
                       retrieve_loop vectorstore num_neighbors chunk_overlap rest
                         (result_sequences @ [concatenated_text]))))"

definition retrieve_with_context_overlap ::
  "'c VectorStore \<Rightarrow> 'c Document list \<Rightarrow> int \<Rightarrow> int \<Rightarrow> int \<Rightarrow> error + 'c list list"
where
  "retrieve_with_context_overlap vectorstore relevant_chunks num_neighbors chunk_size chunk_overlap =
     retrieve_loop vectorstore num_neighbors chunk_overlap relevant_chunks []"

section \<open>Notions used to state the properties\<close>

text \<open>
  The number of rounds the splitter's loop makes from offset \<open>start\<close> on a text of
  \<open>n\<close> characters when it advances by \<open>step\<close>: the offsets
  \<open>start, start + step, \<dots>\<close> below \<open>n\<close>.
\<close>

definition rounds :: "nat \<Rightarrow> int \<Rightarrow> int \<Rightarrow> nat" where
  "rounds n start step = nat ((int n - start + step - 1) div step)"

text \<open>The chunk of round \<open>k\<close>: the slice at offset \<open>k * (chunk_size - chunk_overlap)\<close>.\<close>

definition chunk_at :: "'c list \<Rightarrow> int \<Rightarrow> int \<Rightarrow> nat \<Rightarrow> 'c Document" where
  "chunk_at text chunk_size chunk_overlap k =
     \<lparr>page_content = py_slice text (int k * (chunk_size - chunk_overlap))
                       (int k * (chunk_size - chunk_overlap) + chunk_size),
      metadata = [(''index'', PInt (int k)), (''text'', PStr text)]\<rparr>"

text \<open>
  The reconstruction of the specification: remove the first \<open>chunk_overlap\<close> characters
  of every chunk but the first, and concatenate in order.
\<close>

definition concat_without_overlaps :: "int \<Rightarrow> 'c Document list \<Rightarrow> 'c list" where
  "concat_without_overlaps chunk_overlap chunks =
     (case chunks of
        [] \<Rightarrow> []
      | first # others \<Rightarrow>
          page_content first @ concat (map (\<lambda>d. drop (nat chunk_overlap) (page_content d)) others))"

text \<open>
  The window of the specification: the chunks with indices
  \<open>center - num_neighbors \<dots> center + num_neighbors\<close>, clipped to the indices that exist,
  in ascending order.
\<close>

definition clipped_window :: "'c Document list \<Rightarrow> int \<Rightarrow> int \<Rightarrow> 'c Document list" where
  "clipped_window chunks center num_neighbors =
     map (\<lambda>k. chunks ! k)
       [nat (max 0 (center - num_neighbors)) ..<
        nat (min (int (length chunks)) (center + num_neighbors + 1))]"

section \<open>The splitter returns exactly when the step is positive\<close>

text \<open>How many rounds remain: none at or past the end of the text, one more before it.\<close>

lemma rounds_done: "0 < step \<Longrightarrow> \<not> start < int n \<Longrightarrow> rounds n start step = 0"
proof -
  assume s: "0 < step" and d: "\<not> start < int n"
  then have "int n - start + step - 1 \<le> step - 1" by simp
  then have "(int n - start + step - 1) div step \<le> (step - 1) div step"
    using s by (intro zdiv_mono1) simp_all
  also have "(step - 1) div step = 0"
    using s by (simp add: div_pos_pos_trivial)
  finally show ?thesis by (simp add: rounds_def)
qed

lemma rounds_step:
  assumes "0 < step" "start < int n"
  shows "rounds n start step = Suc (rounds n (start + step) step)"
proof -
  have e: "int n - start + step - 1 = (int n - (start + step) + step - 1) + 1 * step" by simp
  have "(int n - start + step - 1) div step = (int n - (start + step) + step - 1) div step + 1"
    using assms by (subst e, subst div_mult_self1) auto
  moreover have "0 \<le> (int n - (start + step) + step - 1) div step"
    using assms by (simp add: pos_imp_zdiv_nonneg_iff)
  ultimately show ?thesis by (simp add: rounds_def)
qed

lemma split_loop_returns:
  assumes "0 < chunk_size - chunk_overlap"
  shows "split_loop text chunk_size chunk_overlap start chunks =
     Some (chunks @ map (\<lambda>j. \<lparr>page_content =
                py_slice text (start + int j * (chunk_size - chunk_overlap))
                  (start + int j * (chunk_size - chunk_overlap) + chunk_size),
              metadata = [(''index'', PInt (int (length chunks + j))), (''text'', PStr text)]\<rparr>)
        [0..<rounds (length text) start (chunk_size - chunk_overlap)])"
proof (induction "nat (int (length text) - start)" arbitrary: start chunks rule: less_induct)
  case less
  let ?step = "chunk_size - chunk_overlap"
  show ?case
  proof (cases "start < int (length text)")
    case False
    then show ?thesis
      using assms by (subst split_loop.simps) (simp add: rounds_done)
  next
    case True
    have m: "nat (int (length text) - (start + ?step)) < nat (int (length text) - start)"
      using True assms by simp
    let ?f = "\<lambda>st n j. \<lparr>page_content =
                py_slice text (st + int j * ?step) (st + int j * ?step + chunk_size),
              metadata = [(''index'', PInt (int (n + j))), (''text'', PStr text)]\<rparr>"
    let ?m = "rounds (length text) (start + ?step) ?step"
    have shift: "?f (start + ?step) (length (chunks @ [?f start (length chunks) 0])) j
                   = ?f start (length chunks) (Suc j)" for j
      by (simp add: algebra_simps)
    have "split_loop text chunk_size chunk_overlap start chunks =
            split_loop text chunk_size chunk_overlap (start + ?step)
              (chunks @ [?f start (length chunks) 0])"
      by (subst split_loop.simps) (simp add: True Let_def)
    also have "\<dots> = Some ((chunks @ [?f start (length chunks) 0]) @
                 map (?f (start + ?step) (length (chunks @ [?f start (length chunks) 0]))) [0..<?m])"
      by (rule less.hyps [OF m])
    also have "\<dots> = Some (chunks @ map (?f start (length chunks)) [0..<Suc ?m])"
      unfolding shift by (simp only: map_upt_Suc append_assoc append_Cons append_Nil)
    finally show ?thesis
      by (simp only: rounds_step [OF assms True])
  qed
qed

lemma split_returns:
  assumes "chunk_overlap < chunk_size"
  shows "split_text_to_chunks_with_indices text chunk_size chunk_overlap =
           Some (map (chunk_at text chunk_size chunk_overlap)
                   [0..<rounds (length text) 0 (chunk_size - chunk_overlap)])"
proof -
  have "0 < chunk_size - chunk_overlap" using assms by simp
  from split_loop_returns [OF this, of "text" 0 "[]"]
  show ?thesis
    by (simp add: split_text_to_chunks_with_indices_def chunk_at_def)
qed

lemma split_loop_stuck:
  assumes "split_loop text chunk_size chunk_overlap start chunks = Some y"
  shows "\<not> (chunk_size - chunk_overlap \<le> 0 \<and> start < int (length text))"
proof (rule split_loop.raw_induct
    [where P = "\<lambda>text chunk_size chunk_overlap start chunks y.
                  \<not> (chunk_size - chunk_overlap \<le> 0 \<and> start < int (length text))",
     OF _ assms])
  fix f and src :: "'a list" and chunk_size chunk_overlap start :: int
    and chunks y :: "'a Document list"
  assume IH: "\<And>src chunk_size chunk_overlap start chunks y.
      f src chunk_size chunk_overlap start chunks = Some y \<Longrightarrow>
      \<not> (chunk_size - chunk_overlap \<le> 0 \<and> start < int (length src))"
    and body: "(if start < int (length src) then
        (let end = start + chunk_size;
             chunk = py_slice src start end
         in f src chunk_size chunk_overlap (start + (chunk_size - chunk_overlap))
              (chunks @ [\<lparr>page_content = chunk,
                          metadata = [(''index'', PInt (int (length chunks))),
                                      (''text'', PStr src)]\<rparr>]))
      else Some chunks) = Some y"
  show "\<not> (chunk_size - chunk_overlap \<le> 0 \<and> start < int (length src))"
  proof
    assume a: "chunk_size - chunk_overlap \<le> 0 \<and> start < int (length src)"
    with body have "f src chunk_size chunk_overlap (start + (chunk_size - chunk_overlap))
              (chunks @ [\<lparr>page_content = py_slice src start (start + chunk_size),
                          metadata = [(''index'', PInt (int (length chunks))),
                                      (''text'', PStr src)]\<rparr>]) = Some y"
      by (simp add: Let_def)
    from IH [OF this] a show False by simp
  qed
qed

lemma split_never_returns:
  assumes "chunk_size \<le> chunk_overlap" "text \<noteq> []"
  shows "split_text_to_chunks_with_indices text chunk_size chunk_overlap = None"
proof (cases "split_text_to_chunks_with_indices text chunk_size chunk_overlap")
  case None
  then show ?thesis .
next
  case (Some y)
  then have "\<not> (chunk_size - chunk_overlap \<le> 0 \<and> 0 < int (length text))"
    unfolding split_text_to_chunks_with_indices_def by (rule split_loop_stuck)
  with assms show ?thesis by simp
qed

lemma split_empty: "split_text_to_chunks_with_indices [] chunk_size chunk_overlap = Some []"
  unfolding split_text_to_chunks_with_indices_def by (subst split_loop.simps) simp

subsection \<open>Termination\<close>

text \<open>
  Claim C8. For every source text and every configuration with
  \<open>chunk_size > chunk_overlap \<ge> 0\<close> the splitter returns: the loop ends and the result
  is a finite list, of as many chunks as there are offsets \<open>0, step, 2 * step, \<dots>\<close>
  below the length of the text. The splitter is a function of its three arguments, so
  running it again on the same arguments gives the same list.
\<close>

theorem splitter_terminates:
  assumes "0 \<le> chunk_overlap" "chunk_overlap < chunk_size"
  shows "\<exists>chunks. split_text_to_chunks_with_indices text chunk_size chunk_overlap = Some chunks
           \<and> length chunks = rounds (length text) 0 (chunk_size - chunk_overlap)"
  by (simp add: split_returns [OF assms(2)])

theorem splitter_terminates_witness:
  "(0::int) \<le> 2 \<and> (2::int) < 4 \<and>
   (\<exists>chunks. split_text_to_chunks_with_indices ''abcdefghi'' 4 2 = Some chunks
       \<and> length chunks = 5)"
  using splitter_terminates [of 2 4 "''abcdefghi''"] by (simp add: rounds_def)

subsection \<open>No validation of the configuration\<close>

text \<open>
  Claim C1 says that the splitter fails with \<open>InvalidConfiguration\<close> when
  \<open>chunk_overlap \<ge> chunk_size\<close>, when \<open>chunk_size\<close> is not positive or when
  \<open>chunk_overlap\<close> is negative. The splitter has no such check and raises nothing:
  with a negative overlap it returns chunks.
\<close>

theorem splitter_does_not_validate_counterexample:
  "split_text_to_chunks_with_indices ''ab'' 1 (- 1) =
     Some [\<lparr>page_content = ''a'', metadata = [(''index'', PInt 0), (''text'', PStr ''ab'')]\<rparr>]"
  by code_simp

text \<open>
  Claim C1, amended. The splitter never signals an error. Whenever
  \<open>chunk_overlap < chunk_size\<close>, whatever the signs of the two, it returns the chunks at
  the offsets \<open>0, step, 2 * step, \<dots>\<close>; on the empty text it returns the empty list for
  every configuration; with \<open>chunk_overlap \<ge> chunk_size\<close> on a text that is not empty it
  returns nothing at all, neither chunks nor an error.
\<close>

theorem splitter_without_validation:
  "split_text_to_chunks_with_indices text chunk_size chunk_overlap =
     (if chunk_overlap < chunk_size then
        Some (map (chunk_at text chunk_size chunk_overlap)
                [0..<rounds (length text) 0 (chunk_size - chunk_overlap)])
      else if text = [] then Some []
      else None)"
  by (simp add: split_returns split_never_returns split_empty)

theorem splitter_without_validation_witness:
  "split_text_to_chunks_with_indices ''ab'' 1 (- 1) = Some [chunk_at ''ab'' 1 (- 1) 0] \<and>
   split_text_to_chunks_with_indices ('''' :: string) 100 100 = Some [] \<and>
   split_text_to_chunks_with_indices ''ab'' 100 100 = None"
  using splitter_without_validation [of "''ab''" 1 "- 1"]
        splitter_without_validation [of "'''' :: string" 100 100]
        splitter_without_validation [of "''ab''" 100 100]
  by (simp add: rounds_def)

section \<open>The chunks the splitter returns\<close>

text \<open>A slice between bounds that are not negative is a \<open>take\<close> of a \<open>drop\<close>.\<close>

lemma py_slice_nonneg:
  assumes "0 \<le> lo" "0 \<le> hi"
  shows "py_slice xs lo hi = take (nat hi - nat lo) (drop (nat lo) xs)"
  using assms by (auto simp: py_slice_def py_bound_def min_def Let_def)

text \<open>Round \<open>k\<close> happens exactly when its offset lies before the end of the text.\<close>

lemma rounds_iff:
  assumes "0 < step"
  shows "k < rounds n start step \<longleftrightarrow> start + int k * step < int n"
proof (induction k arbitrary: start)
  case 0
  show ?case
  proof (cases "start < int n")
    case True
    then show ?thesis by (simp add: rounds_step [OF assms])
  next
    case False
    then show ?thesis by (simp add: rounds_done [OF assms])
  qed
next
  case (Suc k)
  show ?case
  proof (cases "start < int n")
    case True
    have "Suc k < rounds n start step \<longleftrightarrow> k < rounds n (start + step) step"
      by (simp add: rounds_step [OF assms True])
    also have "\<dots> \<longleftrightarrow> start + step + int k * step < int n"
      by (rule Suc.IH)
    finally show ?thesis by (simp add: algebra_simps)
  next
    case False
    have "0 \<le> int k * step" using assms by simp
    moreover have "start + int (Suc k) * step = start + step + int k * step"
      by (simp add: algebra_simps)
    ultimately have "\<not> start + int (Suc k) * step < int n"
      using False assms by linarith
    with False show ?thesis by (simp add: rounds_done [OF assms])
  qed
qed

lemma chunk_at_content:
  assumes "0 \<le> chunk_overlap" "chunk_overlap < chunk_size"
  shows "page_content (chunk_at text chunk_size chunk_overlap k) =
           take (nat chunk_size) (drop (k * nat (chunk_size - chunk_overlap)) text)"
proof -
  let ?step = "chunk_size - chunk_overlap"
  have lo: "0 \<le> int k * ?step" using assms by simp
  have n: "nat (int k * ?step) = k * nat ?step"
    using assms by (simp add: nat_mult_distrib)
  have "nat (int k * ?step + chunk_size) = k * nat ?step + nat chunk_size"
    using assms lo n by (simp add: nat_add_distrib)
  then show ?thesis
    using assms lo n by (simp add: chunk_at_def py_slice_nonneg)
qed

lemma split_nth:
  assumes "chunk_overlap < chunk_size"
    and "split_text_to_chunks_with_indices text chunk_size chunk_overlap = Some chunks"
  shows "length chunks = rounds (length text) 0 (chunk_size - chunk_overlap)"
    and "i < length chunks \<Longrightarrow> chunks ! i = chunk_at text chunk_size chunk_overlap i"
proof -
  from assms have c: "chunks = map (chunk_at text chunk_size chunk_overlap)
                   [0..<rounds (length text) 0 (chunk_size - chunk_overlap)]"
    by (simp add: split_returns)
  then show "length chunks = rounds (length text) 0 (chunk_size - chunk_overlap)" by simp
  show "i < length chunks \<Longrightarrow> chunks ! i = chunk_at text chunk_size chunk_overlap i"
    by (simp add: c)
qed

subsection \<open>Every chunk is the slice at its offset\<close>

text \<open>
  Claim C2. For every source text and every configuration with
  \<open>chunk_size > chunk_overlap \<ge> 0\<close>, the text of the \<open>i\<close>-th chunk is the Python slice
  \<open>text[i * (chunk_size - chunk_overlap) : i * (chunk_size - chunk_overlap) + chunk_size]\<close>;
  the slice is clamped at the end of the text, so the last chunks may be shorter.
\<close>

theorem chunk_is_slice:
  assumes "0 \<le> chunk_overlap" "chunk_overlap < chunk_size"
    and "split_text_to_chunks_with_indices text chunk_size chunk_overlap = Some chunks"
    and "i < length chunks"
  shows "page_content (chunks ! i) =
           py_slice text (int i * (chunk_size - chunk_overlap))
             (int i * (chunk_size - chunk_overlap) + chunk_size)"
  using split_nth(2) [OF assms(2,3,4)] by (simp add: chunk_at_def)

theorem chunk_is_slice_witness:
  "(0::int) \<le> 2 \<and> (2::int) < 4 \<and>
   split_text_to_chunks_with_indices ''abcdefghi'' 4 2 =
     Some (map (chunk_at ''abcdefghi'' 4 2) [0, 1, 2, 3, 4]) \<and>
   (3::nat) < length (map (chunk_at ''abcdefghi'' 4 2) [0, 1, 2, 3, 4]) \<and>
   page_content (map (chunk_at ''abcdefghi'' 4 2) [0, 1, 2, 3, 4] ! 3) = ''ghi''"
proof -
  have s: "split_text_to_chunks_with_indices ''abcdefghi'' 4 2 =
     Some (map (chunk_at ''abcdefghi'' 4 2) [0, 1, 2, 3, 4])"
    by code_simp
  have "page_content (map (chunk_at ''abcdefghi'' 4 2) [0, 1, 2, 3, 4] ! 3) =
          py_slice ''abcdefghi'' (int 3 * (4 - 2)) (int 3 * (4 - 2) + 4)"
    by (rule chunk_is_slice [OF _ _ s]) simp_all
  moreover have "py_slice ''abcdefghi'' (int 3 * (4 - 2)) (int 3 * (4 - 2) + 4) = ''ghi''"
    by code_simp
  ultimately show ?thesis using s by simp
qed

subsection \<open>Chunk indices\<close>

text \<open>
  Claim C9. For every source text and every valid configuration, the indices recorded
  in the metadata of the chunks are \<open>0, 1, \<dots>, n - 1\<close> in the order of production:
  no gap and no duplicate.
\<close>

theorem chunk_indices_contiguous:
  assumes "0 \<le> chunk_overlap" "chunk_overlap < chunk_size"
    and "split_text_to_chunks_with_indices text chunk_size chunk_overlap = Some chunks"
  shows "map (\<lambda>d. dict_get (metadata d) ''index'') chunks =
           map (\<lambda>k. Some (PInt (int k))) [0..<length chunks]"
proof (rule nth_equalityI)
  show "length (map (\<lambda>d. dict_get (metadata d) ''index'') chunks) =
        length (map (\<lambda>k. Some (PInt (int k))) [0..<length chunks])" by simp
next
  fix i assume "i < length (map (\<lambda>d. dict_get (metadata d) ''index'') chunks)"
  then have i: "i < length chunks" by simp
  from split_nth(2) [OF assms(2,3) i] i
  show "map (\<lambda>d. dict_get (metadata d) ''index'') chunks ! i =
        map (\<lambda>k. Some (PInt (int k))) [0..<length chunks] ! i"
    by (simp add: chunk_at_def dict_get_def)
qed

theorem chunk_indices_contiguous_witness:
  "(0::int) \<le> 2 \<and> (2::int) < 4 \<and>
   split_text_to_chunks_with_indices ''abcdefghi'' 4 2 =
     Some (map (chunk_at ''abcdefghi'' 4 2) [0, 1, 2, 3, 4]) \<and>
   map (\<lambda>d. dict_get (metadata d) ''index'') (map (chunk_at ''abcdefghi'' 4 2) [0, 1, 2, 3, 4]) =
     [Some (PInt 0), Some (PInt 1), Some (PInt 2), Some (PInt 3), Some (PInt 4)]"
proof -
  have s: "split_text_to_chunks_with_indices ''abcdefghi'' 4 2 =
     Some (map (chunk_at ''abcdefghi'' 4 2) [0, 1, 2, 3, 4])"
    by code_simp
  have "map (\<lambda>d. dict_get (metadata d) ''index'') (map (chunk_at ''abcdefghi'' 4 2) [0, 1, 2, 3, 4]) =
        map (\<lambda>k. Some (PInt (int k))) [0..<length (map (chunk_at ''abcdefghi'' 4 2) [0, 1, 2, 3, 4])]"
    by (rule chunk_indices_contiguous [OF _ _ s]) simp_all
  moreover have "map (\<lambda>k. Some (PInt (int k)))
      [0..<length (map (chunk_at ''abcdefghi'' 4 2) [0, 1, 2, 3, 4])] =
     [Some (PInt 0), Some (PInt 1), Some (PInt 2), Some (PInt 3), Some (PInt 4)]"
    by (simp add: upt_rec)
  ultimately show ?thesis using s by simp
qed

subsection \<open>Chunk sizes\<close>

text \<open>
  Claim C10. For every source text and every valid configuration, every chunk has a
  text that is not empty and has at most \<open>chunk_size\<close> characters; the empty text
  gives no chunk at all.
\<close>

theorem chunks_nonempty_bounded:
  assumes "0 \<le> chunk_overlap" "chunk_overlap < chunk_size"
    and "split_text_to_chunks_with_indices text chunk_size chunk_overlap = Some chunks"
  shows "(\<forall>d \<in> set chunks. page_content d \<noteq> [] \<and> int (length (page_content d)) \<le> chunk_size)
         \<and> (text = [] \<longrightarrow> chunks = [])"
proof
  let ?step = "chunk_size - chunk_overlap"
  have step: "0 < ?step" using assms by simp
  show "\<forall>d \<in> set chunks. page_content d \<noteq> [] \<and> int (length (page_content d)) \<le> chunk_size"
  proof
    fix d assume "d \<in> set chunks"
    then obtain i where i: "i < length chunks" and d: "d = chunks ! i"
      by (auto simp: in_set_conv_nth)
    have di: "d = chunk_at text chunk_size chunk_overlap i"
      using split_nth(2) [OF assms(2,3) i] d by simp
    have "i < rounds (length text) 0 ?step"
      using i split_nth(1) [OF assms(2,3)] by simp
    then have "int i * ?step < int (length text)"
      using rounds_iff [OF step, of i "length text" 0] by simp
    moreover have "int (i * nat ?step) = int i * ?step"
      using step by simp
    ultimately have "int (i * nat ?step) < int (length text)" by (simp only:)
    then have "i * nat ?step < length text" by (simp only: of_nat_less_iff)
    moreover have "0 < nat chunk_size" using assms by simp
    ultimately have "page_content d \<noteq> []"
      unfolding di chunk_at_content [OF assms(1,2)] by simp
    moreover have "int (length (page_content d)) \<le> chunk_size"
      unfolding di chunk_at_content [OF assms(1,2)] using assms by simp
    ultimately show "page_content d \<noteq> [] \<and> int (length (page_content d)) \<le> chunk_size" ..
  qed
  show "text = [] \<longrightarrow> chunks = []"
    using assms(3) by (auto simp: split_empty)
qed

theorem chunks_nonempty_bounded_witness:
  "(0::int) \<le> 2 \<and> (2::int) < 4 \<and>
   split_text_to_chunks_with_indices ''abcdefghi'' 4 2 =
     Some (map (chunk_at ''abcdefghi'' 4 2) [0, 1, 2, 3, 4]) \<and>
   list_all (\<lambda>d. page_content d \<noteq> [] \<and> int (length (page_content d)) \<le> 4)
     (map (chunk_at ''abcdefghi'' 4 2) [0, 1, 2, 3, 4]) \<and>
   map page_content (map (chunk_at ''abcdefghi'' 4 2) [0, 1, 2, 3, 4]) =
     [''abcd'', ''cdef'', ''efgh'', ''ghi'', ''i''] \<and>
   split_text_to_chunks_with_indices ('''' :: string) 4 2 = Some [] \<and>
   ('''' :: string) = [] \<and> ([] :: char Document list) = []"
proof -
  have s: "split_text_to_chunks_with_indices ''abcdefghi'' 4 2 =
     Some (map (chunk_at ''abcdefghi'' 4 2) [0, 1, 2, 3, 4])"
    by code_simp
  have e: "split_text_to_chunks_with_indices ('''' :: string) 4 2 = Some []"
    by code_simp
  have c: "map page_content (map (chunk_at ''abcdefghi'' 4 2) [0, 1, 2, 3, 4]) =
     [''abcd'', ''cdef'', ''efgh'', ''ghi'', ''i'']"
    by code_simp
  have h: "(0::int) \<le> 2" "(2::int) < 4" by simp_all
  from chunks_nonempty_bounded [OF h s] chunks_nonempty_bounded [OF h e]
  have "list_all (\<lambda>d. page_content d \<noteq> [] \<and> int (length (page_content d)) \<le> 4)
     (map (chunk_at ''abcdefghi'' 4 2) [0, 1, 2, 3, 4])"
    by (simp only: list_all_iff) simp
  with s e c show ?thesis by simp
qed

subsection \<open>Reconstruction of the text\<close>

lemma concat_takes:
  "concat (map (\<lambda>k. take s (drop (a + k * s) xs)) [0..<m]) = take (m * s) (drop a xs)"
proof (induction m)
  case 0
  show ?case by simp
next
  case (Suc m)
  have "drop (a + m * s) xs = drop (m * s) (drop a xs)"
    by (simp add: add.commute)
  then have "take (m * s) (drop a xs) @ take s (drop (a + m * s) xs) =
             take (m * s + s) (drop a xs)"
    by (simp only: take_add)
  moreover have "Suc m * s = m * s + s" by simp
  moreover have "concat (map (\<lambda>k. take s (drop (a + k * s) xs)) [0..<Suc m]) =
                 concat (map (\<lambda>k. take s (drop (a + k * s) xs)) [0..<m]) @
                 take s (drop (a + m * s) xs)"
    by simp
  ultimately show ?case using Suc by (simp only:)
qed

text \<open>
  Claim C3. For every source text and every configuration with
  \<open>chunk_size > chunk_overlap \<ge> 0\<close>: remove the first \<open>chunk_overlap\<close> characters of
  every chunk but the first and concatenate the chunks in order; the result is the
  source text.
\<close>

theorem chunks_rejoin_to_text:
  assumes "0 \<le> chunk_overlap" "chunk_overlap < chunk_size"
    and "split_text_to_chunks_with_indices text chunk_size chunk_overlap = Some chunks"
  shows "concat_without_overlaps chunk_overlap chunks = text"
proof -
  let ?step = "chunk_size - chunk_overlap"
  let ?S = "nat ?step" and ?C = "nat chunk_size" and ?O = "nat chunk_overlap"
  let ?n = "rounds (length text) 0 ?step"
  have step: "0 < ?step" using assms by simp
  have C: "?C = ?S + ?O" using assms by simp
  have chunks: "chunks = map (chunk_at text chunk_size chunk_overlap) [0..<?n]"
    using assms by (simp add: split_returns)
  show ?thesis
  proof (cases ?n)
    case 0
    have "\<not> 0 < ?n" using 0 by simp
    then have "text = []"
      using rounds_iff [OF step, of 0 "length text" 0] by simp
    with chunks 0 show ?thesis by (simp add: concat_without_overlaps_def)
  next
    case (Suc m)
    have tail: "drop ?O (page_content (chunk_at text chunk_size chunk_overlap (Suc k))) =
                take ?S (drop (?C + k * ?S) text)" for k
      unfolding chunk_at_content [OF assms(1,2)]
      by (simp add: drop_take C add.commute add.left_commute)
    have "\<not> Suc m < ?n" using Suc by simp
    then have "int (length text) \<le> int (Suc m) * ?step"
      using rounds_iff [OF step, of "Suc m" "length text" 0] by simp
    moreover have "int (Suc m * ?S) = int (Suc m) * ?step"
      using step by (simp add: algebra_simps)
    ultimately have "int (length text) \<le> int (Suc m * ?S)" by (simp only:)
    then have "length text \<le> Suc m * ?S" by (simp only: of_nat_le_iff)
    then have len: "length text \<le> ?C + m * ?S" using C by simp
    have "chunks = chunk_at text chunk_size chunk_overlap 0 #
                     map (\<lambda>k. chunk_at text chunk_size chunk_overlap (Suc k)) [0..<m]"
      unfolding chunks Suc by (simp only: map_upt_Suc)
    then have "concat_without_overlaps chunk_overlap chunks =
                 page_content (chunk_at text chunk_size chunk_overlap 0) @
                 concat (map (\<lambda>k. take ?S (drop (?C + k * ?S) text)) [0..<m])"
      by (simp add: concat_without_overlaps_def comp_def tail)
    also have "\<dots> = take ?C text @ take (m * ?S) (drop ?C text)"
      unfolding chunk_at_content [OF assms(1,2)] concat_takes by simp
    also have "\<dots> = take (?C + m * ?S) text"
      by (simp only: take_add)
    also have "\<dots> = text" using len by simp
    finally show ?thesis .
  qed
qed

theorem chunks_rejoin_to_text_witness:
  "(0::int) \<le> 2 \<and> (2::int) < 4 \<and>
   split_text_to_chunks_with_indices ''abcdefghi'' 4 2 =
     Some (map (chunk_at ''abcdefghi'' 4 2) [0, 1, 2, 3, 4]) \<and>
   concat_without_overlaps 2 (map (chunk_at ''abcdefghi'' 4 2) [0, 1, 2, 3, 4]) = ''abcdefghi''"
proof -
  have s: "split_text_to_chunks_with_indices ''abcdefghi'' 4 2 =
     Some (map (chunk_at ''abcdefghi'' 4 2) [0, 1, 2, 3, 4])"
    by code_simp
  have h: "(0::int) \<le> 2" "(2::int) < 4" by simp_all
  from chunks_rejoin_to_text [OF h s] s show ?thesis by simp
qed

section \<open>Indexed lookup in a store built from the splitter's chunks\<close>

text \<open>
  A store built from the chunks holds exactly the chunks, in some order of its own:
  \<open>mset vectorstore = mset chunks\<close>.
\<close>

lemma find_unique:
  assumes "d \<in> set xs" "P d" "\<And>x. x \<in> set xs \<Longrightarrow> P x \<Longrightarrow> x = d"
  shows "find P xs = Some d"
proof (cases "find P xs")
  case None
  with assms(1,2) show ?thesis by (auto simp: find_None_iff)
next
  case (Some x)
  then have "x \<in> set xs" "P x" by (auto simp: find_Some_iff)
  with assms(3) Some show ?thesis by simp
qed

lemma chunk_at_index:
  "dict_get (metadata (chunk_at text chunk_size chunk_overlap k)) ''index'' = Some (PInt (int k))"
  by (simp add: chunk_at_def dict_get_def)

lemma store_lookup:
  assumes "chunk_overlap < chunk_size"
    and "split_text_to_chunks_with_indices text chunk_size chunk_overlap = Some chunks"
    and "mset vectorstore = mset chunks"
  shows "get_chunk_by_index vectorstore target_index =
           (if 0 \<le> target_index \<and> target_index < int (length chunks)
            then Some (chunks ! nat target_index) else None)"
proof -
  let ?P = "\<lambda>doc. dict_get (metadata doc) ''index'' = Some (PInt target_index)"
  have set_eq: "set vectorstore = set chunks"
    using assms(3) by (rule mset_eq_setD)
  have idx: "dict_get (metadata (chunks ! k)) ''index'' = Some (PInt (int k))"
    if "k < length chunks" for k
    using split_nth(2) [OF assms(1,2) that] by (simp add: chunk_at_index)
  show ?thesis
  proof (cases "0 \<le> target_index \<and> target_index < int (length chunks)")
    case True
    then have k: "nat target_index < length chunks" by (simp add: nat_less_iff)
    have "find ?P vectorstore = Some (chunks ! nat target_index)"
    proof (rule find_unique)
      show "chunks ! nat target_index \<in> set vectorstore"
        using k set_eq by simp
      show "?P (chunks ! nat target_index)"
        using idx [OF k] True by simp
      fix x assume "x \<in> set vectorstore" and p: "?P x"
      then obtain j where j: "j < length chunks" and x: "x = chunks ! j"
        using set_eq by (auto simp: in_set_conv_nth)
      from idx [OF j] p x have "int j = target_index" by simp
      then show "x = chunks ! nat target_index" using x by auto
    qed
    with True show ?thesis by (simp add: get_chunk_by_index_def)
  next
    case False
    have "\<not> ?P x" if "x \<in> set vectorstore" for x
    proof -
      from that obtain j where j: "j < length chunks" and x: "x = chunks ! j"
        using set_eq by (auto simp: in_set_conv_nth)
      from idx [OF j] x False j show ?thesis by auto
    qed
    then have "find ?P vectorstore = None" by (auto simp: find_None_iff)
    with False show ?thesis by (simp add: get_chunk_by_index_def)
  qed
qed

text \<open>
  Claim C7. For every store of \<open>n\<close> chunks and every target index: when
  \<open>0 \<le> target_index < n\<close> the lookup returns the chunk of that index, which is the only
  stored chunk whose metadata index is the target; when the target is negative or
  \<open>n\<close> or more, the lookup returns \<open>None\<close>, which is a result and not an error.
\<close>

theorem lookup_by_index:
  assumes "0 \<le> chunk_overlap" "chunk_overlap < chunk_size"
    and "split_text_to_chunks_with_indices text chunk_size chunk_overlap = Some chunks"
    and "mset vectorstore = mset chunks"
  shows "(0 \<le> target_index \<and> target_index < int (length chunks) \<longrightarrow>
            get_chunk_by_index vectorstore target_index = Some (chunks ! nat target_index)
          \<and> dict_get (metadata (chunks ! nat target_index)) ''index'' = Some (PInt target_index)
          \<and> (\<forall>d \<in> set vectorstore.
                dict_get (metadata d) ''index'' = Some (PInt target_index)
                \<longrightarrow> d = chunks ! nat target_index))
       \<and> (target_index < 0 \<or> int (length chunks) \<le> target_index \<longrightarrow>
            get_chunk_by_index vectorstore target_index = None)"
proof (intro conjI impI ballI)
  assume r: "0 \<le> target_index \<and> target_index < int (length chunks)"
  then show g: "get_chunk_by_index vectorstore target_index = Some (chunks ! nat target_index)"
    by (simp add: store_lookup [OF assms(2,3,4)])
  from r have k: "nat target_index < length chunks" by (simp add: nat_less_iff)
  from split_nth(2) [OF assms(2,3) k] r
  show "dict_get (metadata (chunks ! nat target_index)) ''index'' = Some (PInt target_index)"
    by (simp add: chunk_at_index)
  fix d assume "d \<in> set vectorstore"
    and p: "dict_get (metadata d) ''index'' = Some (PInt target_index)"
  then have "d \<in> set chunks"
    using mset_eq_setD [OF assms(4)] by simp
  then obtain j where j: "j < length chunks" and d: "d = chunks ! j"
    by (auto simp: in_set_conv_nth)
  from split_nth(2) [OF assms(2,3) j] p d have "int j = target_index"
    by (simp add: chunk_at_index)
  then show "d = chunks ! nat target_index" using d by auto
next
  assume "target_index < 0 \<or> int (length chunks) \<le> target_index"
  then show "get_chunk_by_index vectorstore target_index = None"
    by (auto simp: store_lookup [OF assms(2,3,4)])
qed

theorem lookup_by_index_witness:
  "(0::int) \<le> 2 \<and> (2::int) < 4 \<and>
   split_text_to_chunks_with_indices ''abcdefghi'' 4 2 =
     Some (map (chunk_at ''abcdefghi'' 4 2) [0, 1, 2, 3, 4]) \<and>
   mset (rev (map (chunk_at ''abcdefghi'' 4 2) [0, 1, 2, 3, 4])) =
     mset (map (chunk_at ''abcdefghi'' 4 2) [0, 1, 2, 3, 4]) \<and>
   get_chunk_by_index (rev (map (chunk_at ''abcdefghi'' 4 2) [0, 1, 2, 3, 4])) 3 =
     Some (chunk_at ''abcdefghi'' 4 2 3) \<and>
   get_chunk_by_index (rev (map (chunk_at ''abcdefghi'' 4 2) [0, 1, 2, 3, 4])) (- 1) = None \<and>
   get_chunk_by_index (rev (map (chunk_at ''abcdefghi'' 4 2) [0, 1, 2, 3, 4])) 5 = None"
proof -
  let ?CH = "map (chunk_at ''abcdefghi'' 4 2) [0, 1, 2, 3, 4]"
  have h: "(0::int) \<le> 2" "(2::int) < 4" by simp_all
  have s: "split_text_to_chunks_with_indices ''abcdefghi'' 4 2 = Some ?CH" by code_simp
  have m: "mset (rev ?CH) = mset ?CH" by (rule mset_rev)
  from lookup_by_index [OF h s m, of 3] lookup_by_index [OF h s m, of "- 1"]
       lookup_by_index [OF h s m, of 5] s m
  show ?thesis by simp
qed

section \<open>The expander on a store built from the splitter's chunks\<close>

text \<open>
  On every store, whatever it holds, the chunks the expander gathers carry integer
  keys, so the sort never meets a key of another type.
\<close>

lemma gathered_keys_are_integers:
  "list_all (\<lambda>x. is_PInt (sort_key_of x)) (gather_neighbors vectorstore start_index end_index)"
proof -
  have "is_PInt (sort_key_of d)" if "get_chunk_by_index vectorstore i = Some d" for i d
  proof -
    from that have "dict_get (metadata d) ''index'' = Some (PInt i)"
      by (auto simp: get_chunk_by_index_def find_Some_iff)
    then show ?thesis by (simp add: sort_key_of_def)
  qed
  then show ?thesis
    by (auto simp: gather_neighbors_def list_all_iff map_filter_def)
qed

lemma sort_of_gathered:
  "\<exists>sorted_chunks. sort_by_index (gather_neighbors vectorstore start_index end_index)
      = Inr sorted_chunks"
  by (simp add: sort_by_index_def gathered_keys_are_integers)

text \<open>Python's \<^verbatim>\<open>range(a, b)\<close> from a bound that is not negative.\<close>

lemma upto_as_upt:
  assumes "0 \<le> a"
  shows "[a..b] = map int [nat a..<nat (b + 1)]"
proof (rule nth_equalityI)
  show "length [a..b] = length (map int [nat a..<nat (b + 1)])"
    using assms by simp
next
  fix i assume "i < length [a..b]"
  then have "a + int i \<le> b" by simp
  then show "[a..b] ! i = map int [nat a..<nat (b + 1)] ! i"
    using assms by simp
qed

lemma map_filter_in_range:
  assumes "\<And>k. f (int k) = (if k < n then Some (g k) else None)"
  shows "List.map_filter f (map int [lo..<hi]) = map g [lo..<min hi n]"
proof (induction hi)
  case 0
  show ?case by (simp add: map_filter_def)
next
  case (Suc hi)
  show ?case
  proof (cases "lo \<le> hi")
    case False
    then show ?thesis by (simp add: map_filter_def)
  next
    case True
    have "List.map_filter f (map int [lo..<Suc hi]) =
            List.map_filter f (map int [lo..<hi]) @ List.map_filter f [int hi]"
      using True by (simp add: map_filter_def)
    also have "\<dots> = map g [lo..<min hi n] @ (if hi < n then [g hi] else [])"
      by (simp only: Suc.IH) (simp add: map_filter_def assms)
    also have "\<dots> = map g [lo..<min (Suc hi) n]"
      using True by (auto simp: min_def)
    finally show ?thesis .
  qed
qed

text \<open>The gathering loop collects the clipped window, already in ascending order.\<close>

lemma gather_window:
  assumes "chunk_overlap < chunk_size"
    and "split_text_to_chunks_with_indices text chunk_size chunk_overlap = Some chunks"
    and "mset vectorstore = mset chunks"
  shows "gather_neighbors vectorstore (max 0 (center - num_neighbors)) (center + num_neighbors + 1)
           = clipped_window chunks center num_neighbors"
proof -
  let ?a = "max 0 (center - num_neighbors)" and ?e = "center + num_neighbors + 1"
  have f: "get_chunk_by_index vectorstore (int k) =
             (if k < length chunks then Some (chunks ! k) else None)" for k
    by (simp add: store_lookup [OF assms])
  have a: "0 \<le> ?a" by simp
  have "gather_neighbors vectorstore ?a ?e =
          List.map_filter (get_chunk_by_index vectorstore) (map int [nat ?a..<nat ?e])"
    unfolding gather_neighbors_def upto_as_upt [OF a] by simp
  also have "\<dots> = map (\<lambda>k. chunks ! k) [nat ?a..<min (nat ?e) (length chunks)]"
    by (rule map_filter_in_range) (rule f)
  also have "min (nat ?e) (length chunks) = nat (min (int (length chunks)) ?e)"
    by linarith
  finally show ?thesis by (simp add: clipped_window_def)
qed

lemma window_nonempty:
  assumes "0 \<le> num_neighbors" "0 \<le> center" "center < int (length chunks)"
  shows "clipped_window chunks center num_neighbors \<noteq> []"
  using assms by (simp add: clipped_window_def) linarith

lemma sort_window:
  assumes "chunk_overlap < chunk_size"
    and "split_text_to_chunks_with_indices text chunk_size chunk_overlap = Some chunks"
  shows "sort_by_index (clipped_window chunks center num_neighbors)
           = Inr (clipped_window chunks center num_neighbors)"
proof -
  let ?lo = "nat (max 0 (center - num_neighbors))"
  let ?hi = "nat (min (int (length chunks)) (center + num_neighbors + 1))"
  have hi: "?hi \<le> length chunks" by simp
  have key: "sort_key_of (chunks ! k) = PInt (int k)" if "k < length chunks" for k
    using split_nth(2) [OF assms that] by (simp add: sort_key_of_def chunk_at_index)
  have keys: "map (\<lambda>x. int_of_pyval (sort_key_of x)) (clipped_window chunks center num_neighbors)
                = map int [?lo..<?hi]"
    unfolding clipped_window_def using hi by (simp add: key)
  have "sorted (map int [?lo..<?hi])"
    by (simp add: sorted_map) 
  then have "sort_key (\<lambda>x. int_of_pyval (sort_key_of x)) (clipped_window chunks center num_neighbors)
              = clipped_window chunks center num_neighbors"
    using keys by (simp add: sort_key_id_if_sorted)
  moreover have "list_all (\<lambda>x. is_PInt (sort_key_of x)) (clipped_window chunks center num_neighbors)"
    unfolding clipped_window_def using hi by (simp add: list_all_iff key)
  ultimately show ?thesis by (simp add: sort_by_index_def)
qed

lemma concatenate_nonempty:
  assumes "window \<noteq> []"
  shows "\<exists>t. concatenate_chunks chunk_overlap window = Inr t"
  using assms by (cases window) (simp_all add: concatenate_chunks_def)

lemma retrieve_loop_returns:
  assumes "chunk_overlap < chunk_size"
    and "split_text_to_chunks_with_indices text chunk_size chunk_overlap = Some chunks"
    and "mset vectorstore = mset chunks"
    and "0 \<le> num_neighbors"
    and "set relevant_chunks \<subseteq> set chunks"
  shows "\<exists>results.
           retrieve_loop vectorstore num_neighbors overlap relevant_chunks result_sequences
             = Inr (result_sequences @ results) \<and>
           list_all2 (\<lambda>d r. \<exists>c. dict_get (metadata d) ''index'' = Some (PInt c)
                          \<and> 0 \<le> c \<and> c < int (length chunks)
                          \<and> concatenate_chunks overlap (clipped_window chunks c num_neighbors) = Inr r)
             relevant_chunks results"
  using assms(5)
proof (induction relevant_chunks arbitrary: result_sequences)
  case Nil
  show ?case by simp
next
  case (Cons d rest)
  from Cons.prems obtain k where k: "k < length chunks" and d: "d = chunks ! k"
    by (auto simp: in_set_conv_nth)
  have idx: "dict_get (metadata d) ''index'' = Some (PInt (int k))"
    using split_nth(2) [OF assms(1,2) k] d by (simp add: chunk_at_index)
  let ?W = "clipped_window chunks (int k) num_neighbors"
  have "?W \<noteq> []"
    using assms(4) k by (intro window_nonempty) simp_all
  then obtain t where t: "concatenate_chunks overlap ?W = Inr t"
    using concatenate_nonempty by blast
  have step: "retrieve_loop vectorstore num_neighbors overlap (d # rest) result_sequences =
          retrieve_loop vectorstore num_neighbors overlap rest (result_sequences @ [t])"
    by (simp add: idx Let_def gather_window [OF assms(1,2,3)] sort_window [OF assms(1,2)] t)
  from Cons.prems have "set rest \<subseteq> set chunks" by simp
  from Cons.IH [OF this, of "result_sequences @ [t]"]
  obtain results where
    r: "retrieve_loop vectorstore num_neighbors overlap rest (result_sequences @ [t])
          = Inr ((result_sequences @ [t]) @ results)"
    and l: "list_all2 (\<lambda>d r. \<exists>c. dict_get (metadata d) ''index'' = Some (PInt c)
                          \<and> 0 \<le> c \<and> c < int (length chunks)
                          \<and> concatenate_chunks overlap (clipped_window chunks c num_neighbors) = Inr r)
             rest results"
    by blast
  have "retrieve_loop vectorstore num_neighbors overlap (d # rest) result_sequences
          = Inr (result_sequences @ (t # results))"
    using step r by simp
  moreover have "list_all2 (\<lambda>d r. \<exists>c. dict_get (metadata d) ''index'' = Some (PInt c)
                          \<and> 0 \<le> c \<and> c < int (length chunks)
                          \<and> concatenate_chunks overlap (clipped_window chunks c num_neighbors) = Inr r)
             (d # rest) (t # results)"
    using l idx t k by auto
  ultimately show ?case by blast
qed

subsection \<open>The expander never fails\<close>

text \<open>
  Claim C6. For every store built from the splitter's chunks, every list of matched
  chunks of that store and every \<open>num_neighbors \<ge> 0\<close>, the expander returns a result
  and raises nothing. For each matched chunk, of index \<open>c\<close>, the chunks it gathers are
  the window \<open>c - num_neighbors \<dots> c + num_neighbors\<close> clipped to the indices that exist:
  shorter on the side of a document boundary, never padded. The window holds the
  matched chunk, so the first-element access finds a chunk, and the result for this
  chunk is the concatenation of that window.
\<close>

theorem expander_never_fails:
  assumes "0 \<le> chunk_overlap" "chunk_overlap < chunk_size"
    and "split_text_to_chunks_with_indices text chunk_size chunk_overlap = Some chunks"
    and "mset vectorstore = mset chunks"
    and "set relevant_chunks \<subseteq> set chunks"
    and "0 \<le> num_neighbors"
  shows "\<exists>results.
           retrieve_with_context_overlap vectorstore relevant_chunks num_neighbors expander_size overlap
             = Inr results \<and>
           list_all2 (\<lambda>d r. \<exists>c. dict_get (metadata d) ''index'' = Some (PInt c)
                \<and> gather_neighbors vectorstore (max 0 (c - num_neighbors)) (c + num_neighbors + 1)
                    = clipped_window chunks c num_neighbors
                \<and> clipped_window chunks c num_neighbors \<noteq> []
                \<and> concatenate_chunks overlap (clipped_window chunks c num_neighbors) = Inr r)
             relevant_chunks results"
proof -
  from retrieve_loop_returns [OF assms(2,3,4,6,5), of overlap "[]"]
  obtain results where
    r: "retrieve_loop vectorstore num_neighbors overlap relevant_chunks [] = Inr results"
    and l: "list_all2 (\<lambda>d r. \<exists>c. dict_get (metadata d) ''index'' = Some (PInt c)
                          \<and> 0 \<le> c \<and> c < int (length chunks)
                          \<and> concatenate_chunks overlap (clipped_window chunks c num_neighbors) = Inr r)
             relevant_chunks results"
    by auto
  have "list_all2 (\<lambda>d r. \<exists>c. dict_get (metadata d) ''index'' = Some (PInt c)
                \<and> gather_neighbors vectorstore (max 0 (c - num_neighbors)) (c + num_neighbors + 1)
                    = clipped_window chunks c num_neighbors
                \<and> clipped_window chunks c num_neighbors \<noteq> []
                \<and> concatenate_chunks overlap (clipped_window chunks c num_neighbors) = Inr r)
             relevant_chunks results"
    using l
  proof (rule list_all2_mono)
    fix d r
    assume "\<exists>c. dict_get (metadata d) ''index'' = Some (PInt c)
                          \<and> 0 \<le> c \<and> c < int (length chunks)
                          \<and> concatenate_chunks overlap (clipped_window chunks c num_neighbors) = Inr r"
    then obtain c where c: "dict_get (metadata d) ''index'' = Some (PInt c)"
      "0 \<le> c" "c < int (length chunks)"
      "concatenate_chunks overlap (clipped_window chunks c num_neighbors) = Inr r"
      by blast
    from window_nonempty [OF assms(6) c(2,3)] gather_window [OF assms(2,3,4)] c
    show "\<exists>c. dict_get (metadata d) ''index'' = Some (PInt c)
                \<and> gather_neighbors vectorstore (max 0 (c - num_neighbors)) (c + num_neighbors + 1)
                    = clipped_window chunks c num_neighbors
                \<and> clipped_window chunks c num_neighbors \<noteq> []
                \<and> concatenate_chunks overlap (clipped_window chunks c num_neighbors) = Inr r"
      by blast
  qed
  with r show ?thesis by (auto simp: retrieve_with_context_overlap_def)
qed

theorem expander_never_fails_witness:
  "(0::int) \<le> 2 \<and> (2::int) < 4 \<and>
   split_text_to_chunks_with_indices ''abcdefghi'' 4 2 =
     Some (map (chunk_at ''abcdefghi'' 4 2) [0, 1, 2, 3, 4]) \<and>
   mset (rev (map (chunk_at ''abcdefghi'' 4 2) [0, 1, 2, 3, 4])) =
     mset (map (chunk_at ''abcdefghi'' 4 2) [0, 1, 2, 3, 4]) \<and>
   set [chunk_at ''abcdefghi'' 4 2 0, chunk_at ''abcdefghi'' 4 2 1] \<subseteq>
     set (map (chunk_at ''abcdefghi'' 4 2) [0, 1, 2, 3, 4]) \<and>
   (0::int) \<le> 1 \<and>
   retrieve_with_context_overlap (rev (map (chunk_at ''abcdefghi'' 4 2) [0, 1, 2, 3, 4]))
       [chunk_at ''abcdefghi'' 4 2 0, chunk_at ''abcdefghi'' 4 2 1] 1 4 2 =
     Inr [''abcdef'', ''abcdefgh''] \<and>
   clipped_window (map (chunk_at ''abcdefghi'' 4 2) [0, 1, 2, 3, 4]) 0 1 =
     [chunk_at ''abcdefghi'' 4 2 0, chunk_at ''abcdefghi'' 4 2 1]"
proof -
  let ?CH = "map (chunk_at ''abcdefghi'' 4 2) [0, 1, 2, 3, 4]"
  let ?rel = "[chunk_at ''abcdefghi'' 4 2 0, chunk_at ''abcdefghi'' 4 2 1]"
  have h: "(0::int) \<le> 2" "(2::int) < 4" "(0::int) \<le> 1" by simp_all
  have s: "split_text_to_chunks_with_indices ''abcdefghi'' 4 2 = Some ?CH" by code_simp
  have m: "mset (rev ?CH) = mset ?CH" by (rule mset_rev)
  have sub: "set ?rel \<subseteq> set ?CH" by simp
  have v: "retrieve_with_context_overlap (rev ?CH) ?rel 1 4 2 = Inr [''abcdef'', ''abcdefgh'']"
    by code_simp
  have w: "clipped_window ?CH 0 1 = ?rel" by code_simp
  from expander_never_fails [OF h(1,2) s m sub h(3), of 4 2]
  have "\<exists>results. retrieve_with_context_overlap (rev ?CH) ?rel 1 4 2 = Inr results"
    by blast
  with h s m sub v w show ?thesis by (simp only:)
qed

subsection \<open>What the concatenation rebuilds\<close>

lemma py_slice_prefix: "py_slice xs 0 (int n) = take n xs"
  by (simp add: py_slice_nonneg)

text \<open>
  The concatenation loop trims \<open>chunk_overlap\<close> characters from the accumulated text
  before each append. While every chunk appended so far has the full \<open>chunk_size\<close>,
  this removes exactly the overlap and the loop rebuilds a contiguous slice.
\<close>

lemma stitch_full_chunks:
  fixes S C ov :: nat
  assumes "C = S + ov"
    and "\<And>j. j < length ds \<Longrightarrow> page_content (ds ! j) = take C (drop ((lo + 1 + j) * S) text)"
    and "ds = [] \<or> (lo + length ds - 1) * S + C \<le> length text"
  shows "foldl (append_with_overlap (int ov)) (take C (drop (lo * S) text)) ds =
           take (length ds * S + C) (drop (lo * S) text)"
  using assms(2,3)
proof (induction ds rule: rev_induct)
  case Nil
  show ?case by simp
next
  case (snoc d ds)
  let ?m = "length ds"
  let ?acc = "take (?m * S + C) (drop (lo * S) text)"
  have full: "(lo + ?m) * S + C \<le> length text"
    using snoc.prems(2) by simp
  have "ds = [] \<or> (lo + length ds - 1) * S + C \<le> length text"
  proof (cases ds)
    case Nil
    then show ?thesis by simp
  next
    case (Cons a as)
    have "(lo + length ds - 1) * S \<le> (lo + length ds) * S" by simp
    with full show ?thesis by linarith
  qed
  moreover have "page_content (ds ! j) = take C (drop ((lo + 1 + j) * S) text)"
    if "j < length ds" for j
    using snoc.prems(1) [of j] that by (simp add: nth_append)
  ultimately have IH: "foldl (append_with_overlap (int ov)) (take C (drop (lo * S) text)) ds = ?acc"
    using snoc.IH by blast
  have d: "page_content d = take C (drop ((lo + 1 + ?m) * S) text)"
    using snoc.prems(1) [of ?m] by simp
  have len: "length ?acc = ?m * S + C"
    using full by (simp add: algebra_simps)
  have "max 0 (int (length ?acc) - int ov) = int (Suc ?m * S)"
    unfolding len using assms(1) by simp
  moreover have "py_slice ?acc 0 (int (Suc ?m * S)) = take (Suc ?m * S) ?acc"
    by (rule py_slice_prefix)
  moreover have "take (Suc ?m * S) ?acc = take (Suc ?m * S) (drop (lo * S) text)"
    using assms(1) by (simp add: min_def)
  ultimately have trim: "py_slice ?acc 0 (max 0 (int (length ?acc) - int ov)) =
                        take (Suc ?m * S) (drop (lo * S) text)"
    by (simp only:)
  have "drop ((lo + 1 + ?m) * S) text = drop (Suc ?m * S) (drop (lo * S) text)"
    by (simp add: algebra_simps)
  then have "append_with_overlap (int ov) ?acc d =
               take (Suc ?m * S) (drop (lo * S) text) @
               take C (drop (Suc ?m * S) (drop (lo * S) text))"
    by (simp only: append_with_overlap_def Let_def trim d)
  also have "\<dots> = take (Suc ?m * S + C) (drop (lo * S) text)"
    by (simp only: take_add)
  finally show ?case by (simp add: IH)
qed

lemma window_text_full:
  assumes "0 \<le> chunk_overlap" "chunk_overlap < chunk_size"
    and "split_text_to_chunks_with_indices text chunk_size chunk_overlap = Some chunks"
    and "lo \<le> hi" "hi < length chunks"
    and "lo = hi \<or> int (hi - 1) * (chunk_size - chunk_overlap) + chunk_size \<le> int (length text)"
  shows "concatenate_chunks chunk_overlap (map (\<lambda>k. chunks ! k) [lo..<Suc hi]) =
           Inr (py_slice text (int lo * (chunk_size - chunk_overlap))
                  (int hi * (chunk_size - chunk_overlap) + chunk_size))"
proof -
  let ?step = "chunk_size - chunk_overlap"
  let ?S = "nat ?step" and ?C = "nat chunk_size" and ?O = "nat chunk_overlap"
  let ?ds = "map (\<lambda>k. chunks ! k) [Suc lo..<Suc hi]"
  have C: "?C = ?S + ?O" using assms(1,2) by simp
  have O: "int ?O = chunk_overlap" using assms(1) by simp
  have content: "page_content (chunks ! k) = take ?C (drop (k * ?S) text)"
    if "k < length chunks" for k
    using split_nth(2) [OF assms(2,3) that] chunk_at_content [OF assms(1,2)] by simp
  have ds: "page_content (?ds ! j) = take ?C (drop ((lo + 1 + j) * ?S) text)"
    if "j < length ?ds" for j
    using that assms(5) by (simp add: content del: upt_Suc)
  have full: "?ds = [] \<or> (lo + length ?ds - 1) * ?S + ?C \<le> length text"
  proof (cases "lo = hi")
    case True
    then show ?thesis by (simp del: upt_Suc)
  next
    case False
    with assms(6) have "int (hi - 1) * ?step + chunk_size \<le> int (length text)" by simp
    moreover have "int ((hi - 1) * ?S + ?C) = int (hi - 1) * ?step + chunk_size"
      using assms(1,2) by simp
    ultimately have "int ((hi - 1) * ?S + ?C) \<le> int (length text)" by (simp only:)
    then have "(hi - 1) * ?S + ?C \<le> length text" by (simp only: of_nat_le_iff)
    moreover have "lo + length ?ds - 1 = hi - 1" using assms(4) by (simp del: upt_Suc)
    ultimately show ?thesis by (simp only:) simp
  qed
  have "[lo..<Suc hi] = lo # [Suc lo..<Suc hi]"
    using assms(4) by (simp add: upt_conv_Cons del: upt_Suc)
  then have "concatenate_chunks chunk_overlap (map (\<lambda>k. chunks ! k) [lo..<Suc hi]) =
          Inr (foldl (append_with_overlap (int ?O)) (take ?C (drop (lo * ?S) text)) ?ds)"
    using assms(1,4,5) by (simp add: concatenate_chunks_def content del: upt_Suc)
  also have "\<dots> = Inr (take (length ?ds * ?S + ?C) (drop (lo * ?S) text))"
    using stitch_full_chunks [OF C ds full] by (simp only:)
  also have "take (length ?ds * ?S + ?C) (drop (lo * ?S) text) =
             py_slice text (int lo * ?step) (int hi * ?step + chunk_size)"
  proof -
    have lo: "nat (int lo * ?step) = lo * ?S"
      using assms(1,2) by (simp add: nat_mult_distrib)
    have hi: "nat (int hi * ?step + chunk_size) = hi * ?S + ?C"
      using assms(1,2) by (simp add: nat_mult_distrib nat_add_distrib)
    have "hi * ?S + ?C - lo * ?S = (hi - lo) * ?S + ?C"
      using assms(4) by (simp add: diff_mult_distrib)
    moreover have "length ?ds = hi - lo" by (simp del: upt_Suc)
    ultimately show ?thesis
      using assms(1,2) by (simp add: py_slice_nonneg lo hi del: upt_Suc)
  qed
  finally show ?thesis .
qed

text \<open>
  Claim C4 says that for every in-range center and every \<open>num_neighbors \<ge> 0\<close> the
  expander, trimming \<open>chunk_overlap\<close> characters before each append, returns the
  contiguous slice of the source text that the window spans. The trimming is right
  only after a chunk of full size (\<open>window_text_full\<close>). Near the end of the text a
  chunk that is not the last one can be shorter than \<open>chunk_size\<close>; it overlaps its
  successor by fewer than \<open>chunk_overlap\<close> characters, and the loop still trims
  \<open>chunk_overlap\<close>. With a text of 9 characters, chunks of 4 and an overlap of 2, the
  window around chunk 3 spans \<open>text[4:9] = efghi\<close>, and the expander returns \<open>efgi\<close>:
  the character \<open>h\<close> is lost.
\<close>

theorem window_at_the_end_loses_text:
  "split_text_to_chunks_with_indices ''abcdefghi'' 4 2 =
     Some (map (chunk_at ''abcdefghi'' 4 2) [0, 1, 2, 3, 4]) \<and>
   map page_content (map (chunk_at ''abcdefghi'' 4 2) [0, 1, 2, 3, 4]) =
     [''abcd'', ''cdef'', ''efgh'', ''ghi'', ''i''] \<and>
   retrieve_with_context_overlap (map (chunk_at ''abcdefghi'' 4 2) [0, 1, 2, 3, 4])
       [chunk_at ''abcdefghi'' 4 2 3] 1 4 2 = Inr [''efgi''] \<and>
   py_slice ''abcdefghi'' 4 9 = ''efghi''"
  by code_simp

subsection \<open>The round trip on 1000 characters\<close>

text \<open>
  Claim C5 says that a text of 1000 characters split with \<open>chunk_size = 400\<close> and
  \<open>chunk_overlap = 200\<close> gives exactly 4 chunks, at the offsets 0, 200, 400 and 600.
  The loop runs while \<open>start < 1000\<close>, so it makes a fifth round at offset 800: the
  splitter returns 5 chunks, the last of 200 characters.
\<close>

theorem thousand_characters_counterexample:
  "map_option (map (\<lambda>d. length (page_content d)))
     (split_text_to_chunks_with_indices ([0..<1000] :: nat list) 400 200)
   = Some [400, 400, 400, 400, 200]"
proof -
  have "rounds (length ([0..<1000] :: nat list)) 0 (400 - 200) = 5"
    by (simp add: rounds_def)
  then have "split_text_to_chunks_with_indices ([0..<1000] :: nat list) 400 200 =
          Some (map (chunk_at [0..<1000] 400 200) [0..<5])"
    using split_returns [of 200 400 "[0..<1000] :: nat list"] by simp
  moreover have "[0..<5] = [0, 1, 2, 3, 4]" by (simp add: upt_rec)
  ultimately show ?thesis
    by (simp add: chunk_at_content)
qed

text \<open>
  Claim C5, amended. A text of 1000 characters split with \<open>chunk_size = 400\<close> and
  \<open>chunk_overlap = 200\<close> gives exactly 5 chunks, with the indices 0 to 4, at the
  offsets 0, 200, 400, 600 and 800, the last one being \<open>text[800:1000]\<close>; expanding the
  chunk of index 1 with \<open>num_neighbors = 1\<close> returns exactly the characters 0 to 800 of
  the text.
\<close>

theorem thousand_characters:
  assumes "length text = 1000"
    and "mset vectorstore = mset (map (chunk_at text 400 200) [0, 1, 2, 3, 4])"
  shows "split_text_to_chunks_with_indices text 400 200 =
           Some (map (chunk_at text 400 200) [0, 1, 2, 3, 4])
       \<and> map page_content (map (chunk_at text 400 200) [0, 1, 2, 3, 4]) =
           [py_slice text 0 400, py_slice text 200 600, py_slice text 400 800,
            py_slice text 600 1000, py_slice text 800 1000]
       \<and> retrieve_with_context_overlap vectorstore [chunk_at text 400 200 1] 1 400 200 =
           Inr [py_slice text 0 800]"
proof (intro conjI)
  let ?chunks = "map (chunk_at text 400 200) [0, 1, 2, 3, 4]"
  have "rounds (length text) 0 (400 - 200) = 5"
    using assms(1) by (simp add: rounds_def)
  moreover have "[0..<5] = [0, 1, 2, 3, 4]" by (simp add: upt_rec)
  ultimately show s: "split_text_to_chunks_with_indices text 400 200 = Some ?chunks"
    using split_returns [of 200 400 "text"] by simp
  have "py_slice text 800 1200 = py_slice text 800 1000"
    using assms(1) by (simp add: py_slice_nonneg)
  then show "map page_content ?chunks =
           [py_slice text 0 400, py_slice text 200 600, py_slice text 400 800,
            py_slice text 600 1000, py_slice text 800 1000]"
    by (simp add: chunk_at_def)
  have h: "(0::int) \<le> 200" "(200::int) < 400" "(0::int) \<le> 1" by simp_all
  have sub: "set [chunk_at text 400 200 1] \<subseteq> set ?chunks" by simp
  from retrieve_loop_returns [OF h(2) s assms(2) h(3) sub, of 200 "[]"]
  obtain r where r: "retrieve_with_context_overlap vectorstore [chunk_at text 400 200 1] 1 400 200
                       = Inr [r]"
    and c: "\<exists>c. dict_get (metadata (chunk_at text 400 200 1)) ''index'' = Some (PInt c)
              \<and> 0 \<le> c \<and> c < int (length ?chunks)
              \<and> concatenate_chunks 200 (clipped_window ?chunks c 1) = Inr r"
    by (auto simp: retrieve_with_context_overlap_def list_all2_Cons1)
  from c have w: "concatenate_chunks 200 (clipped_window ?chunks 1 1) = Inr r"
    by (simp add: chunk_at_index)
  have "clipped_window ?chunks 1 1 = map (\<lambda>k. ?chunks ! k) [0..<Suc 2]"
    by (simp add: clipped_window_def numeral_3_eq_3)
  moreover have "concatenate_chunks 200 (map (\<lambda>k. ?chunks ! k) [0..<Suc 2]) =
          Inr (py_slice text (int 0 * (400 - 200)) (int 2 * (400 - 200) + 400))"
    using assms(1) by (intro window_text_full [OF h(1,2) s]) simp_all
  ultimately have "r = py_slice text 0 800" using w by simp
  with r show "retrieve_with_context_overlap vectorstore [chunk_at text 400 200 1] 1 400 200 =
           Inr [py_slice text 0 800]" by simp
qed

theorem thousand_characters_witness:
  "length ([0..<1000] :: nat list) = 1000 \<and>
   mset (rev (map (chunk_at ([0..<1000] :: nat list) 400 200) [0, 1, 2, 3, 4])) =
     mset (map (chunk_at [0..<1000] 400 200) [0, 1, 2, 3, 4]) \<and>
   split_text_to_chunks_with_indices ([0..<1000] :: nat list) 400 200 =
     Some (map (chunk_at [0..<1000] 400 200) [0, 1, 2, 3, 4]) \<and>
   retrieve_with_context_overlap (rev (map (chunk_at ([0..<1000] :: nat list) 400 200) [0, 1, 2, 3, 4]))
       [chunk_at [0..<1000] 400 200 1] 1 400 200 = Inr [[0..<800]]"
proof -
  let ?T = "[0..<1000] :: nat list"
  have l: "length ?T = 1000" by (simp only: length_upt)
  have m: "mset (rev (map (chunk_at ?T 400 200) [0, 1, 2, 3, 4])) =
           mset (map (chunk_at ?T 400 200) [0, 1, 2, 3, 4])"
    by (rule mset_rev)
  have "py_slice ?T 0 (int 800) = take 800 ?T" by (rule py_slice_prefix)
  also have "\<dots> = [0..<0 + 800]" by (rule take_upt) simp
  finally have p: "py_slice ?T 0 800 = [0..<800]" by (simp only: of_nat_numeral add_0)
  from thousand_characters [OF l m] l m show ?thesis
    by (simp only: p) 
qed

end
